theory Spec2Isabelle
  imports Main "HOL-Library.Word"
begin

section \<open>The pool of stacks of \<^verbatim>\<open>stack_pool.hpp\<close>\<close>

text \<open>
  The class template \<^verbatim>\<open>stack_pool<T, N>\<close> keeps the nodes of many singly linked
  stacks in one \<^verbatim>\<open>std::vector<node_t>\<close> and addresses them by values of the
  index type \<^verbatim>\<open>N\<close>. The element type \<^verbatim>\<open>T\<close> is the type variable \<open>'a\<close>; the
  index type \<^verbatim>\<open>N\<close> is an unsigned integer of \<open>LENGTH('n)\<close> bits, \<open>'n word\<close>
  (\<^verbatim>\<open>std::size_t\<close>, the default, is \<open>64 word\<close>; \<^verbatim>\<open>uint8_t\<close> is \<open>8 word\<close>).
  Arithmetic and conversions on \<^verbatim>\<open>N\<close> wrap around as they do in C++.
\<close>

subsection \<open>Undefined behaviour\<close>

text \<open>
  The class performs no bounds checking: \<^verbatim>\<open>pool[i]\<close> with \<open>i\<close> outside the vector
  is undefined behaviour. The model makes every such access a value, \<open>Inl OutOfRange\<close>,
  so that a result \<open>Inr r\<close> says that the call stayed inside the storage and returned \<open>r\<close>.
\<close>

datatype fault = OutOfRange

subsection \<open>The backing vector\<close>

text \<open>
  \<^verbatim>\<open>std::vector\<close> belongs to the C++ standard library, not to the repository. The
  model keeps what the class observes of it: the elements, the capacity, and a count of
  the reallocations performed so far (the storage growth events). A default-constructed
  vector has allocated nothing. \<^verbatim>\<open>reserve(n)\<close> reallocates only when \<open>n\<close> exceeds
  the capacity, which is then \<open>n\<close>. \<^verbatim>\<open>emplace_back\<close> reallocates only when size
  and capacity are equal; the capacity it chooses is implementation defined: it is the
  parameter \<open>g\<close> (the growth policy), corrected to hold at least the new element.
  Running out of memory is not modelled.
\<close>

record 'x vector =
  items :: "'x list"
  cap :: nat
  reallocations :: nat

definition vector_new :: "'x vector" where
  "vector_new = \<lparr>items = [], cap = 0, reallocations = 0\<rparr>"

definition vec_size :: "'x vector \<Rightarrow> nat" where
  "vec_size v = length (items v)"

definition vec_reserve :: "nat \<Rightarrow> 'x vector \<Rightarrow> 'x vector" where
  "vec_reserve n v =
     (if cap v < n then v\<lparr>cap := n, reallocations := Suc (reallocations v)\<rparr> else v)"

definition emplace_back :: "(nat \<Rightarrow> nat) \<Rightarrow> 'x \<Rightarrow> 'x vector \<Rightarrow> 'x vector" where
  "emplace_back g x v =
     (if length (items v) < cap v then v\<lparr>items := items v @ [x]\<rparr>
      else v\<lparr>items := items v @ [x],
             cap := max (g (cap v)) (Suc (length (items v))),
             reallocations := Suc (reallocations v)\<rparr>)"

subsection \<open>Nodes and the pool\<close>

text \<open>
  \<^verbatim>\<open>struct node_t { T value; N next; }\<close>. The field names carry a suffix because
  \<open>value\<close> and \<open>next\<close> are reserved words of the theory language.
\<close>

record (overloaded) ('a, 'n) node_t =
  value_n :: 'a
  next_n :: "'n word"

text \<open>The data members of \<^verbatim>\<open>stack_pool\<close>: \<^verbatim>\<open>pool\<close> and \<^verbatim>\<open>free_nodes\<close>.\<close>

record (overloaded) ('a, 'n) stack_pool =
  pool :: "('a, 'n) node_t vector"
  free_nodes :: "'n word"

text \<open>\<^verbatim>\<open>end()\<close> returns \<^verbatim>\<open>stack_type(0)\<close>; \<^verbatim>\<open>empty(x)\<close> is \<^verbatim>\<open>x == end()\<close>;
  \<^verbatim>\<open>new_stack()\<close> returns \<^verbatim>\<open>end()\<close>.\<close>

definition end_h :: "'n::len word" where
  "end_h = 0"

definition empty_s :: "'n::len word \<Rightarrow> bool" where
  "empty_s x = (x = end_h)"

definition new_stack :: "'n::len word" where
  "new_stack = end_h"

text \<open>The default constructor: \<^verbatim>\<open>stack_pool() : free_nodes{end()} {}\<close>.\<close>

definition stack_pool_new :: "('a, 'n::len) stack_pool" where
  "stack_pool_new = \<lparr>pool = vector_new, free_nodes = end_h\<rparr>"

text \<open>\<^verbatim>\<open>reserve(n)\<close> is \<^verbatim>\<open>pool.reserve(n)\<close>, \<^verbatim>\<open>capacity()\<close> is \<^verbatim>\<open>pool.capacity()\<close>, and
  the sized constructor reserves in a default-constructed pool.\<close>

definition reserve :: "nat \<Rightarrow> ('a, 'n::len) stack_pool \<Rightarrow> ('a, 'n) stack_pool" where
  "reserve n p = p\<lparr>pool := vec_reserve n (pool p)\<rparr>"

definition capacity :: "('a, 'n::len) stack_pool \<Rightarrow> nat" where
  "capacity p = cap (pool p)"

definition stack_pool_sized :: "nat \<Rightarrow> ('a, 'n::len) stack_pool" where
  "stack_pool_sized n = reserve n stack_pool_new"

text \<open>
  \<^verbatim>\<open>reserve\<close> is not declared \<^verbatim>\<open>noexcept\<close> (nor is \<^verbatim>\<open>push\<close>; \<^verbatim>\<open>pop\<close> and
  \<^verbatim>\<open>free_stack\<close> are): \<^verbatim>\<open>std::vector::reserve(n)\<close> throws \<^verbatim>\<open>std::length_error\<close>
  when \<open>n\<close> exceeds \<^verbatim>\<open>max_size()\<close>, and the exception leaves \<^verbatim>\<open>stack_pool::reserve\<close>.
  \<open>reserve_may_throw\<close> is \<^verbatim>\<open>reserve\<close> with that outcome written out; the largest size
  of the vector is the parameter \<open>max_size\<close>. Where the call returns, it returns what
  \<open>reserve\<close> gives.
\<close>

datatype exception = Length_error

definition vec_reserve_may_throw :: "nat \<Rightarrow> nat \<Rightarrow> 'x vector \<Rightarrow> exception + 'x vector" where
  "vec_reserve_may_throw max_size n v =
     (if max_size < n then Inl Length_error else Inr (vec_reserve n v))"

definition reserve_may_throw ::
  "nat \<Rightarrow> nat \<Rightarrow> ('a, 'n::len) stack_pool \<Rightarrow> exception + ('a, 'n) stack_pool" where
  "reserve_may_throw max_size n p =
     (case vec_reserve_may_throw max_size n (pool p) of
        Inl e \<Rightarrow> Inl e
      | Inr v \<Rightarrow> Inr (p\<lparr>pool := v\<rparr>))"

text \<open>
  \<^verbatim>\<open>node(x)\<close> is \<^verbatim>\<open>pool[x - 1]\<close>. The subtraction is the one of \<^verbatim>\<open>N\<close>: for the
  handle \<open>0\<close> it wraps to the largest value of \<^verbatim>\<open>N\<close>, an index that lies outside every
  storage of fewer than \<open>2 ^ LENGTH('n)\<close> nodes (for an \<^verbatim>\<open>N\<close> narrower than \<^verbatim>\<open>int\<close>
  the promoted difference \<open>-1\<close> converts to an index that is larger still).
\<close>

definition slot :: "'n::len word \<Rightarrow> nat" where
  "slot x = unat (x - 1)"

definition nodes :: "('a, 'n::len) stack_pool \<Rightarrow> ('a, 'n) node_t list" where
  "nodes p = items (pool p)"

definition node :: "('a, 'n::len) stack_pool \<Rightarrow> 'n word \<Rightarrow> fault + ('a, 'n) node_t" where
  "node p x = (if slot x < length (nodes p) then Inr (nodes p ! slot x) else Inl OutOfRange)"

text \<open>\<^verbatim>\<open>value(x)\<close> and \<^verbatim>\<open>next(x)\<close> read through the reference \<^verbatim>\<open>node(x)\<close>.\<close>

definition value_at :: "('a, 'n::len) stack_pool \<Rightarrow> 'n word \<Rightarrow> fault + 'a" where
  "value_at p x = (case node p x of Inl e \<Rightarrow> Inl e | Inr n \<Rightarrow> Inr (value_n n))"

definition next_at :: "('a, 'n::len) stack_pool \<Rightarrow> 'n word \<Rightarrow> fault + 'n word" where
  "next_at p x = (case node p x of Inl e \<Rightarrow> Inl e | Inr n \<Rightarrow> Inr (next_n n))"

text \<open>The assignments \<^verbatim>\<open>value(x) = v\<close> and \<^verbatim>\<open>next(x) = y\<close> write through it.\<close>

definition store_node ::
  "(('a, 'n) node_t \<Rightarrow> ('a, 'n) node_t) \<Rightarrow> 'n::len word \<Rightarrow> ('a, 'n) stack_pool
     \<Rightarrow> fault + ('a, 'n) stack_pool" where
  "store_node f x p =
     (if slot x < length (nodes p)
      then Inr (p\<lparr>pool := (pool p)\<lparr>items := (nodes p)[slot x := f (nodes p ! slot x)]\<rparr>\<rparr>)
      else Inl OutOfRange)"

definition set_value ::
  "'n::len word \<Rightarrow> 'a \<Rightarrow> ('a, 'n) stack_pool \<Rightarrow> fault + ('a, 'n) stack_pool" where
  "set_value x v p = store_node (\<lambda>n. n\<lparr>value_n := v\<rparr>) x p"

definition set_next ::
  "'n::len word \<Rightarrow> 'n word \<Rightarrow> ('a, 'n) stack_pool \<Rightarrow> fault + ('a, 'n) stack_pool" where
  "set_next x y p = store_node (\<lambda>n. n\<lparr>next_n := y\<rparr>) x p"

subsection \<open>push, pop and free_stack\<close>

text \<open>
  \<^verbatim>\<open>_push(val, head)\<close>, to which both overloads of \<^verbatim>\<open>push\<close> forward. The branch
  that appends returns \<^verbatim>\<open>static_cast<stack_type>(pool.size())\<close>: the size converted
  to \<^verbatim>\<open>N\<close>, that is, reduced modulo \<open>2 ^ LENGTH('n)\<close>.
\<close>

definition push ::
  "(nat \<Rightarrow> nat) \<Rightarrow> 'a \<Rightarrow> 'n::len word \<Rightarrow> ('a, 'n) stack_pool
     \<Rightarrow> fault + ('n word \<times> ('a, 'n) stack_pool)" where
  "push g val head p =
     (if empty_s (free_nodes p)
      then (let p1 = p\<lparr>pool := emplace_back g \<lparr>value_n = val, next_n = head\<rparr> (pool p)\<rparr>
            in Inr (of_nat (vec_size (pool p1)), p1))
      else (let tmp = free_nodes p in
            case next_at p (free_nodes p) of
              Inl e \<Rightarrow> Inl e
            | Inr n \<Rightarrow>
               (case set_value tmp val (p\<lparr>free_nodes := n\<rparr>) of
                  Inl e \<Rightarrow> Inl e
                | Inr p2 \<Rightarrow>
                   (case set_next tmp head p2 of
                      Inl e \<Rightarrow> Inl e
                    | Inr p3 \<Rightarrow> Inr (tmp, p3)))))"

definition pop ::
  "'n::len word \<Rightarrow> ('a, 'n) stack_pool \<Rightarrow> fault + ('n word \<times> ('a, 'n) stack_pool)" where
  "pop x p =
     (if empty_s x then Inr (end_h, p)
      else (case next_at p x of
              Inl e \<Rightarrow> Inl e
            | Inr tmp \<Rightarrow>
               (case set_next x (free_nodes p) p of
                  Inl e \<Rightarrow> Inl e
                | Inr p1 \<Rightarrow> Inr (tmp, p1\<lparr>free_nodes := x\<rparr>))))"

text \<open>
  \<^verbatim>\<open>free_stack\<close> is a \<^verbatim>\<open>while\<close> loop. Nothing in the code bounds the number of
  its iterations, so the model is a partial function: \<open>None\<close> stands for a loop that
  never returns, \<open>Some (Inl e)\<close> for undefined behaviour, \<open>Some (Inr r)\<close> for the
  return of \<open>r\<close>.
\<close>

partial_function (option) free_stack ::
  "'n::len word \<Rightarrow> ('a, 'n) stack_pool \<Rightarrow> (fault + ('n word \<times> ('a, 'n) stack_pool)) option" where
  "free_stack x p =
     (if \<not> empty_s x
      then (case pop x p of
              Inl e \<Rightarrow> Some (Inl e)
            | Inr r \<Rightarrow> free_stack (fst r) (snd r))
      else Some (Inr (x, p)))"

declare free_stack.simps [code]

subsection \<open>Iterators\<close>

text \<open>
  \<^verbatim>\<open>_iterator\<close> holds a pointer to the pool and the current handle. The pointer is an
  address (a number); the operations that go through it take the pool it points to as
  an argument.
\<close>

record (overloaded) 'n iterator =
  pool_ptr :: nat
  current :: "'n word"

definition begin_it :: "nat \<Rightarrow> 'n::len word \<Rightarrow> 'n iterator" where
  "begin_it this x = \<lparr>pool_ptr = this, current = x\<rparr>"

definition end_it :: "nat \<Rightarrow> 'n::len word \<Rightarrow> 'n iterator" where
  "end_it this x = \<lparr>pool_ptr = this, current = end_h\<rparr>"

definition deref :: "('a, 'n::len) stack_pool \<Rightarrow> 'n iterator \<Rightarrow> fault + 'a" where
  "deref p it = value_at p (current it)"

definition incr :: "('a, 'n::len) stack_pool \<Rightarrow> 'n iterator \<Rightarrow> fault + 'n iterator" where
  "incr p it = (case next_at p (current it) of
                  Inl e \<Rightarrow> Inl e
                | Inr n \<Rightarrow> Inr (it\<lparr>current := n\<rparr>))"

definition it_eq :: "'n::len iterator \<Rightarrow> 'n iterator \<Rightarrow> bool" where
  "it_eq x y = (current x = current y)"

definition it_neq :: "'n::len iterator \<Rightarrow> 'n iterator \<Rightarrow> bool" where
  "it_neq x y = (\<not> it_eq x y)"

text \<open>
  Iterating a stack is the loop the iterator is made for,
  \<^verbatim>\<open>for (auto it = p.begin(h); it != p.end(h); ++it) out.push_back(*it);\<close>
  It may run forever on a chain that has a cycle, hence a partial function again.
\<close>

partial_function (option) iterate ::
  "('a, 'n::len) stack_pool \<Rightarrow> 'n iterator \<Rightarrow> 'n iterator \<Rightarrow> 'a list \<Rightarrow> (fault + 'a list) option" where
  "iterate p it stop out =
     (if it_neq it stop
      then (case deref p it of
              Inl e \<Rightarrow> Some (Inl e)
            | Inr v \<Rightarrow>
               (case incr p it of
                  Inl e \<Rightarrow> Some (Inl e)
                | Inr it' \<Rightarrow> iterate p it' stop (out @ [v])))
      else Some (Inr out))"

declare iterate.simps [code]

definition to_list :: "('a, 'n::len) stack_pool \<Rightarrow> 'n word \<Rightarrow> (fault + 'a list) option" where
  "to_list p h = iterate p (begin_it 0 h) (end_it 0 h) []"

subsection \<open>Sequences of calls\<close>

text \<open>
  Client code that the properties below speak about: pushing a sequence of values onto
  one stack (each push takes the head that the previous one returned), a sequence of
  pushes with arbitrary heads (\<open>on any stack\<close>), and \<open>k\<close> calls of \<^verbatim>\<open>pop\<close> in a row.
\<close>

fun push_all ::
  "(nat \<Rightarrow> nat) \<Rightarrow> 'a list \<Rightarrow> 'n::len word \<Rightarrow> ('a, 'n) stack_pool
     \<Rightarrow> fault + ('n word \<times> ('a, 'n) stack_pool)" where
  "push_all g [] h p = Inr (h, p)"
| "push_all g (v # vs) h p =
     (case push g v h p of
        Inl e \<Rightarrow> Inl e
      | Inr r \<Rightarrow> push_all g vs (fst r) (snd r))"

fun pushes ::
  "(nat \<Rightarrow> nat) \<Rightarrow> ('a \<times> 'n::len word) list \<Rightarrow> ('a, 'n) stack_pool
     \<Rightarrow> fault + ('n word list \<times> ('a, 'n) stack_pool)" where
  "pushes g [] p = Inr ([], p)"
| "pushes g (c # cs) p =
     (case push g (fst c) (snd c) p of
        Inl e \<Rightarrow> Inl e
      | Inr r \<Rightarrow>
         (case pushes g cs (snd r) of
            Inl e \<Rightarrow> Inl e
          | Inr rs \<Rightarrow> Inr (fst r # fst rs, snd rs)))"

fun pop_n ::
  "nat \<Rightarrow> 'n::len word \<Rightarrow> ('a, 'n) stack_pool \<Rightarrow> fault + ('n word \<times> ('a, 'n) stack_pool)" where
  "pop_n 0 x p = Inr (x, p)"
| "pop_n (Suc k) x p =
     (case pop x p of
        Inl e \<Rightarrow> Inl e
      | Inr r \<Rightarrow> pop_n k (fst r) (snd r))"

subsection \<open>Chains of nodes\<close>

text \<open>
  \<open>seg p x as y\<close>: following \<^verbatim>\<open>next\<close> from the handle \<open>x\<close> visits exactly the handles
  \<open>as\<close>, each of them a non-sentinel handle of a node inside the storage, and arrives
  at \<open>y\<close>. A well-formed stack with head \<open>h\<close> is a segment from \<open>h\<close> to the sentinel;
  its length is the length of \<open>as\<close>.
\<close>

fun seg :: "('a, 'n::len) stack_pool \<Rightarrow> 'n word \<Rightarrow> 'n word list \<Rightarrow> 'n word \<Rightarrow> bool" where
  "seg p x [] y = (x = y)"
| "seg p x (a # as) y =
     (x = a \<and> \<not> empty_s a \<and> slot a < length (nodes p) \<and> seg p (next_n (nodes p ! slot a)) as y)"

definition chain :: "('a, 'n::len) stack_pool \<Rightarrow> 'n word \<Rightarrow> 'n word list \<Rightarrow> bool" where
  "chain p x as = seg p x as end_h"

definition values_of :: "('a, 'n::len) stack_pool \<Rightarrow> 'n word list \<Rightarrow> 'a list" where
  "values_of p as = map (\<lambda>a. value_n (nodes p ! slot a)) as"

text \<open>
  What \<^verbatim>\<open>_push\<close> needs in order to stay inside the storage and to return a handle
  of the node it wrote: a free-list head, when there is one, that addresses a node of
  the storage; otherwise a storage size after the append that \<^verbatim>\<open>N\<close> can represent.
\<close>

definition push_defined :: "('a, 'n::len) stack_pool \<Rightarrow> bool" where
  "push_defined p =
     (if empty_s (free_nodes p) then Suc (length (nodes p)) < 2 ^ LENGTH('n)
      else slot (free_nodes p) < length (nodes p))"

text \<open>Pushing \<open>vs\<close> onto a stack obtained from \<^verbatim>\<open>new_stack()\<close> and iterating from
  the head that the last push returned.\<close>

definition iterate_pushed ::
  "(nat \<Rightarrow> nat) \<Rightarrow> 'a list \<Rightarrow> ('a, 'n::len) stack_pool \<Rightarrow> (fault + 'a list) option" where
  "iterate_pushed g vs p =
     (case push_all g vs new_stack p of
        Inl e \<Rightarrow> Some (Inl e)
      | Inr r \<Rightarrow> to_list (snd r) (fst r))"

subsection \<open>Concrete pools\<close>

text \<open>The growth policy of a vector that doubles its capacity.\<close>

definition doubling :: "nat \<Rightarrow> nat" where
  "doubling c = 2 * c"

text \<open>
  A pool with the default index type after
  \<^verbatim>\<open>a = push(10, new_stack()); a = push(20, a); b = push(40, new_stack()); b = push(30, b);
  free_stack(b);\<close>
  The stack \<open>a\<close> has head \<open>2\<close> and nodes \<open>2, 1\<close>; the free list is \<open>3, 4\<close>.
\<close>

definition demo :: "(int, 64) stack_pool" where
  "demo = \<lparr>pool = \<lparr>items = [\<lparr>value_n = 10, next_n = 0\<rparr>, \<lparr>value_n = 20, next_n = 1\<rparr>,
                             \<lparr>value_n = 40, next_n = 4\<rparr>, \<lparr>value_n = 30, next_n = 0\<rparr>],
                    cap = 4, reallocations = 3\<rparr>,
            free_nodes = 3\<rparr>"

text \<open>
  \<^verbatim>\<open>stack_pool<int, uint8_t>\<close> after the values \<open>1, \<dots>, 255\<close> have been pushed onto
  one stack of a default-constructed pool: 255 nodes, node \<open>i + 1\<close> linked to node \<open>i\<close>,
  no free node. \<open>over_u8\<close> is the pool after one more push of \<open>256\<close> onto that stack.
\<close>

definition full_u8 :: "(int, 8) stack_pool" where
  "full_u8 = \<lparr>pool = \<lparr>items = map (\<lambda>i. \<lparr>value_n = int i + 1, next_n = of_nat i\<rparr>) [0..<255],
                       cap = 256, reallocations = 9\<rparr>,
               free_nodes = 0\<rparr>"

definition over_u8 :: "(int, 8) stack_pool" where
  "over_u8 = full_u8\<lparr>pool := emplace_back doubling \<lparr>value_n = 256, next_n = 255\<rparr> (pool full_u8)\<rparr>"

section \<open>Basic facts\<close>

subsection \<open>Handles and slots\<close>

lemma slot_inj: "slot x = slot y \<longleftrightarrow> x = y"
proof
  assume "slot x = slot y"
  then have "x - 1 = y - 1" by (simp add: slot_def word_unat_eq_iff)
  then show "x = y" by simp
qed simp

lemma slot_nonzero: "x \<noteq> 0 \<Longrightarrow> slot x = unat x - 1"
  by (simp add: slot_def unat_minus_one)

lemma of_nat_Suc_nonzero:
  "Suc n < 2 ^ LENGTH('n::len) \<Longrightarrow> (of_nat (Suc n) :: 'n word) \<noteq> 0"
  by (simp add: word_of_nat_eq_0_iff del: of_nat_Suc) (meson dvd_imp_le not_less zero_less_Suc)

lemma slot_of_nat_Suc:
  "Suc n < 2 ^ LENGTH('n::len) \<Longrightarrow> slot (of_nat (Suc n) :: 'n word) = n"
  by (simp add: slot_def unat_of_nat)

lemma unat_of_nat_Suc:
  "Suc n < 2 ^ LENGTH('n::len) \<Longrightarrow> unat (of_nat (Suc n) :: 'n word) = Suc n"
  by (simp add: unat_of_nat del: of_nat_Suc)

lemma slot_sentinel: "slot (0 :: 'n::len word) = 2 ^ LENGTH('n) - 1"
  by (simp add: slot_def unsigned_minus_1_eq_mask mask_eq_exp_minus_1)

lemma nodes_simps:
  "nodes (p\<lparr>free_nodes := f\<rparr>) = nodes p"
  "nodes (p\<lparr>pool := v\<rparr>) = items v"
  by (simp_all add: nodes_def)

lemma node_overwrite:
  "(n :: ('a, 'n::len) node_t)\<lparr>value_n := v, next_n := h\<rparr> = \<lparr>value_n = v, next_n = h\<rparr>"
  by (cases n) simp

subsection \<open>What one call does to the pool\<close>

lemma push_reuse:
  assumes "free_nodes p \<noteq> 0" and "slot (free_nodes p) < length (nodes p)"
  shows "push g v h p =
    Inr (free_nodes p,
         p\<lparr>pool := (pool p)\<lparr>items := (nodes p)[slot (free_nodes p) := \<lparr>value_n = v, next_n = h\<rparr>]\<rparr>,
           free_nodes := next_n (nodes p ! slot (free_nodes p))\<rparr>)"
  using assms
  by (simp add: push_def empty_s_def end_h_def next_at_def node_def set_value_def set_next_def
      store_node_def nodes_simps node_overwrite Let_def)

lemma push_grow:
  assumes "free_nodes p = 0"
  shows "push g v h p =
    Inr (of_nat (Suc (length (nodes p))),
         p\<lparr>pool := emplace_back g \<lparr>value_n = v, next_n = h\<rparr> (pool p)\<rparr>)"
  using assms
  by (simp add: push_def empty_s_def end_h_def vec_size_def emplace_back_def nodes_def Let_def)

lemma pop_sentinel: "pop 0 p = Inr (0, p)"
  by (simp add: pop_def empty_s_def end_h_def)

lemma pop_node:
  assumes "x \<noteq> 0" and "slot x < length (nodes p)"
  shows "pop x p =
    Inr (next_n (nodes p ! slot x),
         p\<lparr>pool := (pool p)\<lparr>items := (nodes p)[slot x := (nodes p ! slot x)\<lparr>next_n := free_nodes p\<rparr>]\<rparr>,
           free_nodes := x\<rparr>)"
  using assms
  by (simp add: pop_def empty_s_def end_h_def next_at_def node_def set_next_def store_node_def)

subsection \<open>Segments under updates of the storage\<close>


lemma seg_update:
  assumes "a \<notin> set as" and "nodes q = (nodes p)[slot a := n]"
  shows "seg q x as y = seg p x as y"
  using assms(1)
proof (induction as arbitrary: x)
  case Nil
  show ?case by simp
next
  case (Cons b bs)
  then have "slot b \<noteq> slot a" by (auto simp: slot_inj)
  with Cons assms(2) show ?case by simp
qed

lemma seg_grow:
  assumes "nodes q = nodes p @ ns"
  shows "seg p x as y \<Longrightarrow> seg q x as y"
  using assms by (induction as arbitrary: x) (simp_all add: nth_append)

lemma seg_in_range: "seg p x as y \<Longrightarrow> a \<in> set as \<Longrightarrow> a \<noteq> 0 \<and> slot a < length (nodes p)"
  by (induction as arbitrary: x) (auto simp: empty_s_def end_h_def)

lemma seg_unique: "seg p x as 0 \<Longrightarrow> seg p x bs 0 \<Longrightarrow> as = bs"
proof (induction as arbitrary: x bs)
  case Nil
  then show ?case by (cases bs) (simp_all add: empty_s_def end_h_def)
next
  case (Cons a as)
  then show ?case by (cases bs) (auto simp: empty_s_def end_h_def)
qed

lemma seg_suffix: "seg p x (as @ bs) y \<Longrightarrow> \<exists>z. seg p x as z \<and> seg p z bs y"
  by (induction as arbitrary: x) auto

lemma seg_distinct: "seg p x as 0 \<Longrightarrow> distinct as"
proof (induction as arbitrary: x)
  case Nil
  show ?case by simp
next
  case (Cons a as)
  have "a \<notin> set as"
  proof
    assume "a \<in> set as"
    then obtain bs cs where split: "as = bs @ a # cs" by (auto simp: in_set_conv_decomp)
    with Cons.prems obtain z where "seg p z (a # cs) 0"
      using seg_suffix [of p "next_n (nodes p ! slot a)" bs "a # cs" 0] by auto
    then have "seg p a (a # cs) 0" by simp
    moreover from Cons.prems have "seg p a (a # as) 0" by simp
    ultimately have "a # as = a # cs" by (rule seg_unique [of p a "a # as" "a # cs", rotated])
    with split show False by simp
  qed
  moreover from Cons.prems have "distinct as" by (auto intro: Cons.IH)
  ultimately show ?case by simp
qed

lemma values_of_update:
  assumes "a \<notin> set as" and "nodes q = (nodes p)[slot a := n]"
  shows "values_of q as = values_of p as"
proof -
  have "slot a \<noteq> slot b" if "b \<in> set as" for b
    using that assms(1) by (auto simp: slot_inj)
  with assms(2) show ?thesis by (simp add: values_of_def)
qed

lemma values_of_grow:
  assumes "nodes q = nodes p @ ns" and "seg p x as y"
  shows "values_of q as = values_of p as"
proof -
  have "slot b < length (nodes p)" if "b \<in> set as" for b
    using that assms(2) seg_in_range by blast
  with assms(1) show ?thesis by (simp add: values_of_def nth_append)
qed

subsection \<open>Iterating, freeing and refilling a chain\<close>

lemma iterate_seg:
  "seg p x as 0 \<Longrightarrow>
   iterate p \<lparr>pool_ptr = t, current = x\<rparr> \<lparr>pool_ptr = u, current = 0\<rparr> out
     = Some (Inr (out @ values_of p as))"
proof (induction as arbitrary: x out)
  case Nil
  then show ?case
    by (subst iterate.simps) (simp add: it_neq_def it_eq_def values_of_def)
next
  case (Cons a as)
  from Cons.prems have a: "x = a" "a \<noteq> 0" "slot a < length (nodes p)"
    and rest: "seg p (next_n (nodes p ! slot a)) as 0"
    by (simp_all add: empty_s_def end_h_def)
  have "iterate p \<lparr>pool_ptr = t, current = x\<rparr> \<lparr>pool_ptr = u, current = 0\<rparr> out
      = iterate p \<lparr>pool_ptr = t, current = next_n (nodes p ! slot a)\<rparr> \<lparr>pool_ptr = u, current = 0\<rparr>
          (out @ [value_n (nodes p ! slot a)])"
    using a
    by (subst iterate.simps)
       (simp add: it_neq_def it_eq_def deref_def incr_def value_at_def next_at_def node_def)
  also have "\<dots> = Some (Inr ((out @ [value_n (nodes p ! slot a)]) @ values_of p as))"
    by (rule Cons.IH [OF rest])
  finally show ?case by (simp add: values_of_def)
qed

lemma to_list_chain: "chain p h as \<Longrightarrow> to_list p h = Some (Inr (values_of p as))"
  using iterate_seg [of p h as 0 0 "[]"]
  by (simp add: to_list_def chain_def begin_it_def end_it_def end_h_def)

lemma free_stack_seg:
  assumes "seg p x as 0" and "seg p (free_nodes p) ms y" and "set as \<inter> set ms = {}"
  shows "\<exists>q. free_stack x p = Some (Inr (0, q)) \<and> pop_n (length as) x p = Inr (0, q)
           \<and> seg q (free_nodes q) (rev as @ ms) y
           \<and> length (nodes q) = length (nodes p)
           \<and> map value_n (nodes q) = map value_n (nodes p)
           \<and> cap (pool q) = cap (pool p)
           \<and> reallocations (pool q) = reallocations (pool p)"
  using assms
proof (induction as arbitrary: x p ms)
  case Nil
  then show ?case
    by (subst free_stack.simps) (simp add: empty_s_def end_h_def)
next
  case (Cons a as)
  define p1 where "p1 = p\<lparr>pool := (pool p)\<lparr>items := (nodes p)[slot a := (nodes p ! slot a)\<lparr>next_n := free_nodes p\<rparr>]\<rparr>,
           free_nodes := a\<rparr>"
  from Cons.prems(1) have a: "x = a" "a \<noteq> 0" "slot a < length (nodes p)"
    and rest: "seg p (next_n (nodes p ! slot a)) as 0"
    by (simp_all add: empty_s_def end_h_def)
  from Cons.prems(1) have "distinct (a # as)" by (rule seg_distinct)
  then have a_as: "a \<notin> set as" by simp
  from Cons.prems(3) have a_ms: "a \<notin> set ms" and disj: "set as \<inter> set (a # ms) = {}"
    using a_as by auto
  have pop: "pop x p = Inr (next_n (nodes p ! slot a), p1)"
    using pop_node [OF a(2,3)] a(1) by (simp add: p1_def)
  have n1: "nodes p1 = (nodes p)[slot a := (nodes p ! slot a)\<lparr>next_n := free_nodes p\<rparr>]"
    by (simp add: p1_def nodes_def)
  have f1: "free_nodes p1 = a" by (simp add: p1_def)
  have rest1: "seg p1 (next_n (nodes p ! slot a)) as 0"
    using rest seg_update [OF a_as n1] by simp
  have "seg p1 (free_nodes p) ms y"
    using Cons.prems(2) seg_update [OF a_ms n1] by simp
  then have free1: "seg p1 (free_nodes p1) (a # ms) y"
    using a by (simp add: f1 n1 empty_s_def end_h_def)
  from Cons.IH [OF rest1 free1 disj] obtain q where
    q: "free_stack (next_n (nodes p ! slot a)) p1 = Some (Inr (0, q))"
       "pop_n (length as) (next_n (nodes p ! slot a)) p1 = Inr (0, q)"
       "seg q (free_nodes q) (rev as @ a # ms) y"
       "length (nodes q) = length (nodes p1)"
       "map value_n (nodes q) = map value_n (nodes p1)"
       "cap (pool q) = cap (pool p1)"
       "reallocations (pool q) = reallocations (pool p1)"
    by blast
  have "free_stack x p = Some (Inr (0, q))"
    using a pop q(1) by (subst free_stack.simps) (simp add: empty_s_def end_h_def)
  moreover have "pop_n (length (a # as)) x p = Inr (0, q)"
    using pop q(2) by simp
  moreover have "map value_n (nodes p1) = map value_n (nodes p)"
    using a(3) list_update_id [of "map value_n (nodes p)" "slot a"]
    by (simp add: n1 map_update)
  moreover have "cap (pool p1) = cap (pool p)" "reallocations (pool p1) = reallocations (pool p)"
    by (simp_all add: p1_def)
  ultimately show ?case using q(3-7) by (simp add: n1)
qed

lemma pushes_seg:
  assumes "seg p (free_nodes p) ms y" and "distinct ms" and "length cs = length ms"
  shows "\<exists>q. pushes g cs p = Inr (ms, q) \<and> free_nodes q = y
           \<and> length (nodes q) = length (nodes p)
           \<and> cap (pool q) = cap (pool p)
           \<and> reallocations (pool q) = reallocations (pool p)"
  using assms
proof (induction ms arbitrary: p cs)
  case Nil
  then show ?case by simp
next
  case (Cons m ms)
  from Cons.prems(3) obtain c cs' where cs: "cs = c # cs'" and len: "length cs' = length ms"
    by (cases cs) simp_all
  define p1 where "p1 = p\<lparr>pool := (pool p)\<lparr>items := (nodes p)[slot m := \<lparr>value_n = fst c, next_n = snd c\<rparr>]\<rparr>,
           free_nodes := next_n (nodes p ! slot m)\<rparr>"
  from Cons.prems(1) have m: "free_nodes p = m" "m \<noteq> 0" "slot m < length (nodes p)"
    and rest: "seg p (next_n (nodes p ! slot m)) ms y"
    by (simp_all add: empty_s_def end_h_def)
  from Cons.prems(2) have m_ms: "m \<notin> set ms" and dist: "distinct ms" by simp_all
  have push: "push g (fst c) (snd c) p = Inr (m, p1)"
    using push_reuse [of p g "fst c" "snd c"] m by (simp add: p1_def)
  have n1: "nodes p1 = (nodes p)[slot m := \<lparr>value_n = fst c, next_n = snd c\<rparr>]"
    by (simp add: p1_def nodes_def)
  have "seg p1 (free_nodes p1) ms y"
    using rest seg_update [OF m_ms n1] by (simp add: p1_def)
  from Cons.IH [OF this dist len] obtain q where
    q: "pushes g cs' p1 = Inr (ms, q)" "free_nodes q = y"
       "length (nodes q) = length (nodes p1)"
       "cap (pool q) = cap (pool p1)"
       "reallocations (pool q) = reallocations (pool p1)"
    by blast
  have "pushes g cs p = Inr (m # ms, q)"
    using push q(1) by (simp add: cs)
  moreover have "cap (pool p1) = cap (pool p)" "reallocations (pool p1) = reallocations (pool p)"
    by (simp_all add: p1_def)
  ultimately show ?case using q(2-5) by (simp add: n1)
qed

lemma push_all_chain:
  fixes p :: "('a, 'n::len) stack_pool"
  assumes "chain p (free_nodes p) fs" and "chain p h as" and "set fs \<inter> set as = {}"
    and "length (nodes p) + (length vs - length fs) < 2 ^ LENGTH('n)"
  shows "\<exists>h' q bs. push_all g vs h p = Inr (h', q) \<and> chain q h' (bs @ as)
           \<and> values_of q (bs @ as) = rev vs @ values_of p as"
  using assms
proof (induction vs arbitrary: p h fs as)
  case Nil
  have "push_all g [] h p = Inr (h, p) \<and> chain p h ([] @ as)
      \<and> values_of p ([] @ as) = rev [] @ values_of p as"
    using Nil.prems(2) by simp
  then show ?case by blast
next
  case (Cons v vs)
  show ?case
  proof (cases fs)
    case Nil
    define t :: "'n word" where "t = of_nat (Suc (length (nodes p)))"
    define p1 where "p1 = p\<lparr>pool := emplace_back g \<lparr>value_n = v, next_n = h\<rparr> (pool p)\<rparr>"
    from Cons.prems(1) Nil have free0: "free_nodes p = 0"
      by (simp add: chain_def end_h_def)
    from Cons.prems(4) Nil have room: "Suc (length (nodes p)) < 2 ^ LENGTH('n)" by simp
    have push: "push g v h p = Inr (t, p1)"
      using push_grow [OF free0] by (simp add: t_def p1_def)
    have n1: "nodes p1 = nodes p @ [\<lparr>value_n = v, next_n = h\<rparr>]"
      by (simp add: p1_def nodes_def emplace_back_def)
    have t: "t \<noteq> 0" "slot t = length (nodes p)"
      using room by (simp_all add: t_def of_nat_Suc_nonzero slot_of_nat_Suc del: of_nat_Suc)
    have as1: "chain p1 h as"
      using Cons.prems(2) seg_grow [OF n1] by (simp add: chain_def)
    have t_as: "t \<notin> set as"
      using seg_in_range [of p h as end_h t] Cons.prems(2) t(2) by (auto simp: chain_def)
    have c1: "chain p1 t (t # as)"
      using t as1 by (simp add: chain_def n1 empty_s_def end_h_def)
    have "chain p1 (free_nodes p1) []"
      using free0 by (simp add: p1_def chain_def end_h_def)
    moreover have "set [] \<inter> set (t # as) = {}" by simp
    moreover have "length (nodes p1) + (length vs - length ([]::'n word list)) < 2 ^ LENGTH('n)"
      using Cons.prems(4) Nil by (simp add: n1)
    ultimately obtain h' q bs where
      q: "push_all g vs t p1 = Inr (h', q)" "chain q h' (bs @ t # as)"
         "values_of q (bs @ t # as) = rev vs @ values_of p1 (t # as)"
      using Cons.IH [OF _ c1] by blast
    have "values_of p1 (t # as) = v # values_of p as"
      using values_of_grow [OF n1, of h as end_h] Cons.prems(2) t(2)
      by (simp add: chain_def) (simp add: values_of_def n1)
    with q(3) have "values_of q ((bs @ [t]) @ as) = rev (v # vs) @ values_of p as" by simp
    moreover have "push_all g (v # vs) h p = Inr (h', q)" using push q(1) by simp
    moreover have "chain q h' ((bs @ [t]) @ as)" using q(2) by simp
    ultimately show ?thesis by blast
  next
    case (Cons f fs')
    define p1 where "p1 = p\<lparr>pool := (pool p)\<lparr>items := (nodes p)[slot f := \<lparr>value_n = v, next_n = h\<rparr>]\<rparr>,
           free_nodes := next_n (nodes p ! slot f)\<rparr>"
    from Cons.prems(1) Cons have f: "free_nodes p = f" "f \<noteq> 0" "slot f < length (nodes p)"
      and rest: "seg p (next_n (nodes p ! slot f)) fs' 0"
      by (simp_all add: chain_def empty_s_def end_h_def)
    from Cons.prems(1) have "distinct fs" using seg_distinct by (simp add: chain_def end_h_def)
    with Cons have f_fs: "f \<notin> set fs'" by simp
    from Cons.prems(3) Cons have f_as: "f \<notin> set as" by auto
    have push: "push g v h p = Inr (f, p1)"
      using push_reuse [of p g v h] f by (simp add: p1_def)
    have n1: "nodes p1 = (nodes p)[slot f := \<lparr>value_n = v, next_n = h\<rparr>]"
      by (simp add: p1_def nodes_def)
    have free1: "chain p1 (free_nodes p1) fs'"
      using rest seg_update [OF f_fs n1] by (simp add: p1_def chain_def end_h_def)
    have "chain p1 h as"
      using Cons.prems(2) seg_update [OF f_as n1] by (simp add: chain_def)
    then have c1: "chain p1 f (f # as)"
      using f by (simp add: chain_def n1 empty_s_def end_h_def)
    have disj: "set fs' \<inter> set (f # as) = {}"
      using Cons.prems(3) Cons f_fs by auto
    have room: "length (nodes p1) + (length vs - length fs') < 2 ^ LENGTH('n)"
      using Cons.prems(4) Cons by (simp add: n1)
    from Cons.IH [OF free1 c1 disj room] obtain h' q bs where
      q: "push_all g vs f p1 = Inr (h', q)" "chain q h' (bs @ f # as)"
         "values_of q (bs @ f # as) = rev vs @ values_of p1 (f # as)"
      by blast
    have "values_of p1 (f # as) = v # values_of p as"
      using values_of_update [OF f_as n1] f(3) by (simp add: values_of_def n1)
    with q(3) have "values_of q ((bs @ [f]) @ as) = rev (v # vs) @ values_of p as" by simp
    moreover have "push_all g (v # vs) h p = Inr (h', q)" using push q(1) by simp
    moreover have "chain q h' ((bs @ [f]) @ as)" using q(2) by simp
    ultimately show ?thesis by blast
  qed
qed




subsection \<open>The full eight-bit pool\<close>

lemma push_all_append:
  "push_all g (vs @ ws) h p =
     (case push_all g vs h p of Inl e \<Rightarrow> Inl e | Inr r \<Rightarrow> push_all g ws (fst r) (snd r))"
  by (induction vs arbitrary: h p) (simp_all split: sum.splits)

text \<open>\<open>full_u8\<close> is the state that 255 pushes onto one stack of a new pool produce.\<close>

lemma full_u8_reached:
  "push_all doubling [1..255] new_stack (stack_pool_new :: (int, 8) stack_pool) = Inr (255, full_u8)"
  by code_simp

lemma full_u8_facts:
  "free_nodes full_u8 = 0" "length (nodes full_u8) = 255"
  by (simp_all add: full_u8_def nodes_def)

subsection \<open>The result of a push; the frame of reserve\<close>

lemma push_result:
  fixes p :: "('a, 'n::len) stack_pool"
  assumes "push_defined p"
  shows "\<exists>t q. push g v h p = Inr (t, q) \<and> t \<noteq> 0 \<and> slot t < length (nodes q)
           \<and> nodes q ! slot t = \<lparr>value_n = v, next_n = h\<rparr>
           \<and> (free_nodes p = 0 \<longrightarrow> unat t = length (nodes q) \<and> length (nodes q) = Suc (length (nodes p)))
           \<and> (free_nodes p \<noteq> 0 \<longrightarrow> t = free_nodes p \<and> length (nodes q) = length (nodes p))"
proof (cases "free_nodes p = 0")
  case True
  define t :: "'n word" where "t = of_nat (Suc (length (nodes p)))"
  define q where "q = p\<lparr>pool := emplace_back g \<lparr>value_n = v, next_n = h\<rparr> (pool p)\<rparr>"
  from assms True have room: "Suc (length (nodes p)) < 2 ^ LENGTH('n)"
    by (simp add: push_defined_def empty_s_def end_h_def)
  have push: "push g v h p = Inr (t, q)"
    using push_grow [OF True] by (simp add: t_def q_def)
  have nq: "nodes q = nodes p @ [\<lparr>value_n = v, next_n = h\<rparr>]"
    by (simp add: q_def nodes_def emplace_back_def)
  have t: "t \<noteq> 0" "slot t = length (nodes p)" "unat t = Suc (length (nodes p))"
    using room
    by (simp_all add: t_def of_nat_Suc_nonzero slot_of_nat_Suc unat_of_nat_Suc del: of_nat_Suc)
  show ?thesis using push t True by (simp add: nq)
next
  case False
  define f where "f = free_nodes p"
  define q where "q = p\<lparr>pool := (pool p)\<lparr>items := (nodes p)[slot f := \<lparr>value_n = v, next_n = h\<rparr>]\<rparr>,
           free_nodes := next_n (nodes p ! slot f)\<rparr>"
  from assms False have f: "f \<noteq> 0" "slot f < length (nodes p)"
    by (simp_all add: push_defined_def empty_s_def end_h_def f_def)
  have push: "push g v h p = Inr (f, q)"
    using push_reuse [of p g v h] f by (simp add: f_def q_def)
  have nq: "nodes q = (nodes p)[slot f := \<lparr>value_n = v, next_n = h\<rparr>]"
    by (simp add: q_def nodes_def)
  show ?thesis using push f False by (simp add: nq f_def)
qed

lemma reserve_may_throw_returns:
  "n \<le> m \<Longrightarrow> reserve_may_throw m n p = Inr (reserve n p)"
  by (simp add: reserve_may_throw_def vec_reserve_may_throw_def reserve_def)


section \<open>The properties of the specification\<close>

text \<open>
  C1 (LIFO order). Push the values \<open>v1, \<dots>, vk\<close>, in that order, onto a stack obtained
  from \<^verbatim>\<open>new_stack()\<close>, in a pool whose free list is a chain \<open>fs\<close> ending at the
  sentinel. If the nodes that have to be appended (those the free list does not supply)
  keep the node count below \<open>2 ^ LENGTH('n)\<close>, the number of values of \<^verbatim>\<open>N\<close>, then
  every push returns, and iterating from the head returned by the last push terminates,
  stays inside the storage and visits \<open>vk, \<dots>, v1\<close>.
\<close>

theorem push_all_lifo:
  fixes p :: "('a, 'n::len) stack_pool"
  assumes "chain p (free_nodes p) fs"
    and "length (nodes p) + (length vs - length fs) < 2 ^ LENGTH('n)"
  shows "iterate_pushed g vs p = Some (Inr (rev vs))"
proof -
  have "chain p new_stack []" by (simp add: chain_def new_stack_def)
  with assms obtain h q bs where
    q: "push_all g vs new_stack p = Inr (h, q)" "chain q h (bs @ [])"
       "values_of q (bs @ []) = rev vs @ values_of p []"
    using push_all_chain [of p fs new_stack "[]" vs g] by auto
  then have "to_list q h = Some (Inr (rev vs))"
    using to_list_chain [of q h bs] by (simp add: values_of_def)
  with q(1) show ?thesis by (simp add: iterate_pushed_def)
qed

text \<open>The pool \<open>demo\<close>, whose free list is \<open>3, 4\<close>: pushing \<open>1, 2, 3\<close> reuses the two
  free nodes, appends a third, and the iteration yields \<open>3, 2, 1\<close>.\<close>

theorem push_all_lifo_witness:
  "chain demo (free_nodes demo) [3, 4]
   \<and> length (nodes demo) + (length [1, 2, 3 :: int] - length [3, 4 :: 64 word]) < 2 ^ LENGTH(64)
   \<and> iterate_pushed doubling [1, 2, 3] demo = Some (Inr (rev [1, 2, 3]))"
proof -
  have h1: "chain demo (free_nodes demo) [3, 4]"
    by (simp add: chain_def demo_def nodes_def slot_def empty_s_def end_h_def)
  have h2: "length (nodes demo) + (length [1, 2, 3 :: int] - length [3, 4 :: 64 word]) < 2 ^ LENGTH(64)"
    by (simp add: demo_def nodes_def)
  show ?thesis using h1 h2 push_all_lifo [OF h1 h2, of doubling] by simp
qed

text \<open>
  Without the bound the order is lost. In \<^verbatim>\<open>stack_pool<int, uint8_t>\<close> the 256th
  push onto one stack of a new pool appends the 256th node and returns
  \<^verbatim>\<open>static_cast<uint8_t>(256)\<close>, the sentinel: iterating from it visits nothing.
\<close>

theorem push_all_lifo_overflow:
  "iterate_pushed doubling [1..256] (stack_pool_new :: (int, 8) stack_pool) = Some (Inr [])
   \<and> rev [1..256] \<noteq> []"
proof -
  have split: "[1..256] = [1..255] @ [256 :: int]"
    using upto_rec2 [of 1 256] by simp
  have "push_all doubling [1..256] new_stack (stack_pool_new :: (int, 8) stack_pool)
      = push_all doubling [256] 255 full_u8"
    by (simp only: split push_all_append full_u8_reached sum.case fst_conv snd_conv)
  also have "\<dots> = Inr (0, over_u8)"
    using push_grow [of full_u8 doubling 256 255] by (simp add: full_u8_facts over_u8_def)
  finally have "iterate_pushed doubling [1..256] (stack_pool_new :: (int, 8) stack_pool)
      = to_list over_u8 0"
    by (simp add: iterate_pushed_def)
  also have "\<dots> = Some (Inr [])"
    by (simp add: to_list_def begin_it_def end_it_def end_h_def)
       (subst iterate.simps, simp add: it_neq_def it_eq_def)
  finally show ?thesis using split by simp
qed

text \<open>
  C2 (push, then pop). In a pool where the push is defined (\<open>push_defined\<close>: the head
  of the free list addresses a node, or, with no free node, the size after the append is
  representable in \<^verbatim>\<open>N\<close>), for every value \<open>v\<close> and every head \<open>h\<close>,
  \<^verbatim>\<open>push(v, h)\<close> returns a handle \<open>t\<close> of a node that holds \<open>v\<close>, and
  \<^verbatim>\<open>pop(t)\<close> returns exactly \<open>h\<close>; the node it removes, now the head of the free
  list, is \<open>t\<close>, the node of \<open>v\<close>.
\<close>

theorem push_pop_restores:
  fixes p :: "('a, 'n::len) stack_pool"
  assumes "push_defined p"
  shows "\<exists>t q q'. push g v h p = Inr (t, q) \<and> value_at q t = Inr v
           \<and> pop t q = Inr (h, q') \<and> free_nodes q' = t \<and> value_at q' t = Inr v"
proof (cases "free_nodes p = 0")
  case True
  define t :: "'n word" where "t = of_nat (Suc (length (nodes p)))"
  define q where "q = p\<lparr>pool := emplace_back g \<lparr>value_n = v, next_n = h\<rparr> (pool p)\<rparr>"
  from assms True have room: "Suc (length (nodes p)) < 2 ^ LENGTH('n)"
    by (simp add: push_defined_def empty_s_def end_h_def)
  have push: "push g v h p = Inr (t, q)"
    using push_grow [OF True] by (simp add: t_def q_def)
  have nq: "nodes q = nodes p @ [\<lparr>value_n = v, next_n = h\<rparr>]"
    by (simp add: q_def nodes_def emplace_back_def)
  have t: "t \<noteq> 0" "slot t = length (nodes p)"
    using room by (simp_all add: t_def of_nat_Suc_nonzero slot_of_nat_Suc del: of_nat_Suc)
  then have in_q: "slot t < length (nodes q)" by (simp add: nq)
  have "value_at q t = Inr v"
    using t by (simp add: value_at_def node_def nq)
  moreover have "pop t q = Inr (h, q\<lparr>pool := (pool q)\<lparr>items := (nodes q)[slot t := (nodes q ! slot t)\<lparr>next_n := free_nodes q\<rparr>]\<rparr>, free_nodes := t\<rparr>)"
    using pop_node [OF t(1) in_q] t(2) by (simp add: nq)
  moreover have "value_at (q\<lparr>pool := (pool q)\<lparr>items := (nodes q)[slot t := (nodes q ! slot t)\<lparr>next_n := free_nodes q\<rparr>]\<rparr>, free_nodes := t\<rparr>) t = Inr v"
    using t by (simp add: value_at_def node_def nodes_def nq [unfolded nodes_def])
  ultimately show ?thesis using push by simp
next
  case False
  define f where "f = free_nodes p"
  define q where "q = p\<lparr>pool := (pool p)\<lparr>items := (nodes p)[slot f := \<lparr>value_n = v, next_n = h\<rparr>]\<rparr>,
           free_nodes := next_n (nodes p ! slot f)\<rparr>"
  from assms False have f: "f \<noteq> 0" "slot f < length (nodes p)"
    by (simp_all add: push_defined_def empty_s_def end_h_def f_def)
  have push: "push g v h p = Inr (f, q)"
    using push_reuse [of p g v h] f by (simp add: f_def q_def)
  have nq: "nodes q = (nodes p)[slot f := \<lparr>value_n = v, next_n = h\<rparr>]"
    by (simp add: q_def nodes_def)
  from f have in_q: "slot f < length (nodes q)" by (simp add: nq)
  have "value_at q f = Inr v"
    using f by (simp add: value_at_def node_def nq)
  moreover have "pop f q = Inr (h, q\<lparr>pool := (pool q)\<lparr>items := (nodes q)[slot f := (nodes q ! slot f)\<lparr>next_n := free_nodes q\<rparr>]\<rparr>, free_nodes := f\<rparr>)"
    using pop_node [OF f(1) in_q] f(2) by (simp add: nq)
  moreover have "value_at (q\<lparr>pool := (pool q)\<lparr>items := (nodes q)[slot f := (nodes q ! slot f)\<lparr>next_n := free_nodes q\<rparr>]\<rparr>, free_nodes := f\<rparr>) f = Inr v"
    using f by (simp add: value_at_def node_def nodes_def nq [unfolded nodes_def])
  ultimately show ?thesis using push by simp
qed

text \<open>
  In \<open>demo\<close> the push of \<open>50\<close> onto the stack with head \<open>2\<close> reuses the free
  node \<open>3\<close>, and the pop gives \<open>2\<close> back.
\<close>

theorem push_pop_restores_witness:
  "push_defined demo
   \<and> (\<exists>t q q'. push doubling 50 2 demo = Inr (t, q) \<and> value_at q t = Inr 50
           \<and> pop t q = Inr (2, q') \<and> free_nodes q' = t \<and> value_at q' t = Inr 50)"
proof -
  have h: "push_defined demo"
    by (simp add: push_defined_def demo_def nodes_def slot_def empty_s_def end_h_def)
  show ?thesis using h push_pop_restores [OF h, of doubling 50 2] by simp
qed

text \<open>
  Where the push is not defined the head is not restored. In the full eight-bit pool
  the push onto the stack with head \<open>255\<close> returns the sentinel, and the pop of the
  sentinel returns the sentinel, not \<open>255\<close>.
\<close>

theorem push_pop_overflow:
  "push doubling 256 255 full_u8 = Inr (0, over_u8) \<and> pop 0 over_u8 = Inr (0, over_u8)
   \<and> (0 :: 8 word) \<noteq> 255"
  using push_grow [of full_u8 doubling 256 255]
  by (simp add: full_u8_facts over_u8_def pop_sentinel)

text \<open>
  C3 (the sentinel). \<^verbatim>\<open>pop\<close> and \<^verbatim>\<open>free_stack\<close> on the handle that
  \<^verbatim>\<open>new_stack()\<close> returns, for which \<^verbatim>\<open>empty\<close> holds, return that handle and the
  pool as it was, storage and free list untouched, in every pool state: these calls
  return a value, neither a fault nor an error.
\<close>

theorem pop_sentinel_noop:
  "pop new_stack p = Inr (new_stack, p) \<and> free_stack new_stack p = Some (Inr (new_stack, p))
   \<and> empty_s (new_stack :: 'n::len word) \<and> (new_stack :: 'n word) = end_h"
proof -
  have "free_stack new_stack p = Some (Inr (new_stack, p))"
    by (subst free_stack.simps) (simp add: new_stack_def empty_s_def)
  then show ?thesis by (simp add: pop_def new_stack_def empty_s_def)
qed

text \<open>
  That holds of \<^verbatim>\<open>pop\<close> and \<^verbatim>\<open>free_stack\<close>, not of every operation:
  \<^verbatim>\<open>reserve(n)\<close> throws when \<open>n\<close> exceeds what the vector can hold. Here the vector
  of a new pool of \<^verbatim>\<open>int\<close> values with the default index type, whose nodes take 16
  bytes, so that \<^verbatim>\<open>max_size()\<close> is \<open>2 ^ 59 - 1\<close>, is asked for the largest
  \<^verbatim>\<open>size_type\<close>.
\<close>

theorem reserve_throws:
  "reserve_may_throw (2 ^ 59 - 1) (2 ^ 64 - 1) (stack_pool_new :: (int, 64) stack_pool)
     = Inl Length_error"
  by (simp add: reserve_may_throw_def vec_reserve_may_throw_def)

text \<open>
  C4 (free_stack). For a well-formed stack with head \<open>h\<close> and nodes \<open>as\<close>,
  \<^verbatim>\<open>free_stack(h)\<close> terminates and returns the sentinel, an empty stack; result
  and final pool are those of \<open>length as\<close> calls of \<^verbatim>\<open>pop\<close>; capacity, size and
  reallocation count of the storage and the stored values are unchanged; the free list
  has grown by the nodes of the stack: from its new head it runs through \<open>rev as\<close> and
  arrives at its old head.
\<close>

theorem free_stack_empties:
  fixes p :: "('a, 'n::len) stack_pool"
  assumes "chain p h as"
  shows "\<exists>q. free_stack h p = Some (Inr (end_h, q)) \<and> empty_s (end_h :: 'n::len word)
           \<and> pop_n (length as) h p = Inr (end_h, q)
           \<and> capacity q = capacity p
           \<and> vec_size (pool q) = vec_size (pool p)
           \<and> reallocations (pool q) = reallocations (pool p)
           \<and> map value_n (nodes q) = map value_n (nodes p)
           \<and> seg q (free_nodes q) (rev as) (free_nodes p)"
proof -
  have "seg p (free_nodes p) [] (free_nodes p)" by simp
  with assms obtain q where
    "free_stack h p = Some (Inr (0, q))" "pop_n (length as) h p = Inr (0, q)"
    "seg q (free_nodes q) (rev as @ []) (free_nodes p)"
    "length (nodes q) = length (nodes p)"
    "map value_n (nodes q) = map value_n (nodes p)"
    "cap (pool q) = cap (pool p)"
    "reallocations (pool q) = reallocations (pool p)"
    using free_stack_seg [of p h as "[]" "free_nodes p"] by (auto simp: chain_def end_h_def)
  then show ?thesis
    by (simp add: end_h_def empty_s_def capacity_def vec_size_def nodes_def)
qed

text \<open>
  In \<open>demo\<close>, for the stack with head \<open>2\<close> and nodes \<open>2, 1\<close>.
\<close>

theorem free_stack_empties_witness:
  "chain demo 2 [2, 1]
   \<and> (\<exists>q. free_stack 2 demo = Some (Inr (end_h, q)) \<and> empty_s (end_h :: 64 word)
           \<and> pop_n (length [2, 1 :: 64 word]) 2 demo = Inr (end_h, q)
           \<and> capacity q = capacity demo
           \<and> vec_size (pool q) = vec_size (pool demo)
           \<and> reallocations (pool q) = reallocations (pool demo)
           \<and> map value_n (nodes q) = map value_n (nodes demo)
           \<and> seg q (free_nodes q) (rev [2, 1]) (free_nodes demo))"
proof -
  have h: "chain demo 2 [2, 1]"
    by (simp add: chain_def demo_def nodes_def slot_def empty_s_def end_h_def)
  show ?thesis using h free_stack_empties [OF h] by simp
qed

text \<open>
  C5 (recycling). After \<^verbatim>\<open>free_stack\<close> on a well-formed stack of \<open>k\<close> nodes
  \<open>as\<close>, the next \<open>k\<close> pushes, of any values onto any heads, return exactly the freed
  handles, last freed first (\<open>rev as\<close>), and leave the size, the capacity and the
  reallocation count of the storage as they were before; the free list is back at its
  old head.
\<close>

theorem freed_slots_reused:
  fixes p :: "('a, 'n::len) stack_pool"
  assumes "chain p h as" and "length cs = length as"
  shows "\<exists>q q'. free_stack h p = Some (Inr (end_h, q)) \<and> pushes g cs q = Inr (rev as, q')
           \<and> vec_size (pool q') = vec_size (pool p)
           \<and> capacity q' = capacity p
           \<and> reallocations (pool q') = reallocations (pool p)
           \<and> free_nodes q' = free_nodes p"
proof -
  have "seg p (free_nodes p) [] (free_nodes p)" by simp
  with assms(1) obtain q where
    q: "free_stack h p = Some (Inr (0, q))"
       "seg q (free_nodes q) (rev as @ []) (free_nodes p)"
       "length (nodes q) = length (nodes p)"
       "cap (pool q) = cap (pool p)"
       "reallocations (pool q) = reallocations (pool p)"
    using free_stack_seg [of p h as "[]" "free_nodes p"] by (auto simp: chain_def end_h_def)
  from assms(1) have "distinct (rev as)"
    using seg_distinct [of p h as] by (simp add: chain_def end_h_def)
  moreover from q(2) have "seg q (free_nodes q) (rev as) (free_nodes p)" by simp
  moreover from assms(2) have "length cs = length (rev as)" by simp
  ultimately obtain q' where
    "pushes g cs q = Inr (rev as, q')" "free_nodes q' = free_nodes p"
    "length (nodes q') = length (nodes q)"
    "cap (pool q') = cap (pool q)"
    "reallocations (pool q') = reallocations (pool q)"
    using pushes_seg [of q "rev as" "free_nodes p" cs g] by blast
  with q show ?thesis
    by (simp add: end_h_def capacity_def vec_size_def nodes_def)
qed

text \<open>
  In \<open>demo\<close>: the stack \<open>2, 1\<close> is freed and two pushes get the slots \<open>1\<close> and
  \<open>2\<close>.
\<close>

theorem freed_slots_reused_witness:
  "chain demo 2 [2, 1] \<and> length [(7 :: int, 0), (8, 3 :: 64 word)] = length [2, 1 :: 64 word]
   \<and> (\<exists>q q'. free_stack 2 demo = Some (Inr (end_h, q))
           \<and> pushes doubling [(7, 0), (8, 3)] q = Inr (rev [2, 1], q')
           \<and> vec_size (pool q') = vec_size (pool demo)
           \<and> capacity q' = capacity demo
           \<and> reallocations (pool q') = reallocations (pool demo)
           \<and> free_nodes q' = free_nodes demo)"
proof -
  have h1: "chain demo 2 [2, 1]"
    by (simp add: chain_def demo_def nodes_def slot_def empty_s_def end_h_def)
  have h2: "length [(7 :: int, 0), (8, 3 :: 64 word)] = length [2, 1 :: 64 word]" by simp
  show ?thesis using h1 freed_slots_reused [OF h1 h2, of doubling] by simp
qed



text \<open>
  C7 (handles are one-based indices). In a pool whose nodes all have a handle (fewer
  than \<open>2 ^ LENGTH('n)\<close> nodes) and where the push is defined, \<^verbatim>\<open>push(v, h)\<close>
  returns a handle \<open>t\<close> other than the sentinel; \<^verbatim>\<open>node(t)\<close> is the node
  \<open>(v, h)\<close>, stored at position \<open>t - 1\<close>; in the branch that appends, \<open>t\<close> is the
  new size of the storage. The sentinel addresses no node, and every other handle \<open>x\<close>
  resolves to position \<open>x - 1\<close>.
\<close>

theorem handles_one_based:
  fixes p :: "('a, 'n::len) stack_pool"
  assumes "push_defined p" and "length (nodes p) < 2 ^ LENGTH('n)"
  shows "\<exists>t q. push g v h p = Inr (t, q) \<and> t \<noteq> end_h
           \<and> node q t = Inr \<lparr>value_n = v, next_n = h\<rparr>
           \<and> unat t - 1 < length (nodes q)
           \<and> nodes q ! (unat t - 1) = \<lparr>value_n = v, next_n = h\<rparr>
           \<and> (empty_s (free_nodes p) \<longrightarrow> unat t = vec_size (pool q))
           \<and> node q end_h = Inl OutOfRange
           \<and> (\<forall>x. x \<noteq> end_h \<longrightarrow> node q x =
                 (if unat x - 1 < length (nodes q) then Inr (nodes q ! (unat x - 1))
                  else Inl OutOfRange))"
proof -
  from push_result [OF assms(1), of g v h] obtain t q where
    r: "push g v h p = Inr (t, q)" "t \<noteq> 0" "slot t < length (nodes q)"
       "nodes q ! slot t = \<lparr>value_n = v, next_n = h\<rparr>"
       "free_nodes p = 0 \<longrightarrow> unat t = length (nodes q) \<and> length (nodes q) = Suc (length (nodes p))"
       "free_nodes p \<noteq> 0 \<longrightarrow> t = free_nodes p \<and> length (nodes q) = length (nodes p)"
    by blast
  have "length (nodes q) < 2 ^ LENGTH('n)"
  proof (cases "free_nodes p = 0")
    case True
    with assms(1) r(5) show ?thesis by (simp add: push_defined_def empty_s_def end_h_def)
  next
    case False
    with assms(2) r(6) show ?thesis by simp
  qed
  then have "node q end_h = Inl OutOfRange"
    by (simp add: node_def end_h_def slot_sentinel)
  moreover have "\<forall>x. x \<noteq> end_h \<longrightarrow> node q x =
      (if unat x - 1 < length (nodes q) then Inr (nodes q ! (unat x - 1)) else Inl OutOfRange)"
    by (simp add: node_def end_h_def slot_nonzero)
  moreover have "node q t = Inr \<lparr>value_n = v, next_n = h\<rparr>"
    using r(3,4) by (simp add: node_def)
  moreover have "unat t - 1 < length (nodes q)" "nodes q ! (unat t - 1) = \<lparr>value_n = v, next_n = h\<rparr>"
    using r(2,3,4) by (simp_all add: slot_nonzero)
  moreover have "empty_s (free_nodes p) \<longrightarrow> unat t = vec_size (pool q)"
    using r(5) by (simp add: empty_s_def end_h_def vec_size_def nodes_def)
  ultimately show ?thesis using r(1,2) by (simp add: end_h_def)
qed

text \<open>
  In \<open>demo\<close>, where the push reuses the free node \<open>3\<close>.
\<close>

theorem handles_one_based_witness:
  "push_defined demo \<and> length (nodes demo) < 2 ^ LENGTH(64)
   \<and> (\<exists>t q. push doubling 50 2 demo = Inr (t, q) \<and> t \<noteq> end_h
           \<and> node q t = Inr \<lparr>value_n = 50, next_n = 2\<rparr>
           \<and> unat t - 1 < length (nodes q)
           \<and> nodes q ! (unat t - 1) = \<lparr>value_n = 50, next_n = 2\<rparr>
           \<and> (empty_s (free_nodes demo) \<longrightarrow> unat t = vec_size (pool q))
           \<and> node q end_h = Inl OutOfRange
           \<and> (\<forall>x. x \<noteq> end_h \<longrightarrow> node q x =
                 (if unat x - 1 < length (nodes q) then Inr (nodes q ! (unat x - 1))
                  else Inl OutOfRange)))"
proof -
  have h1: "push_defined demo"
    by (simp add: push_defined_def demo_def nodes_def slot_def empty_s_def end_h_def)
  have h2: "length (nodes demo) < 2 ^ LENGTH(64)"
    by (simp add: demo_def nodes_def)
  show ?thesis using h1 h2 handles_one_based [OF h1 h2, of doubling 50 2] by simp
qed

text \<open>
  In the full eight-bit pool the push appends the node at position \<open>255\<close> and the
  size becomes \<open>256\<close>, but the handle returned is \<open>0\<close>, the sentinel.
\<close>

theorem handles_one_based_overflow:
  "push doubling 256 255 full_u8 = Inr (0, over_u8)
   \<and> nodes over_u8 ! 255 = \<lparr>value_n = 256, next_n = 255\<rparr>
   \<and> vec_size (pool over_u8) = 256
   \<and> unat (0 :: 8 word) \<noteq> vec_size (pool over_u8) \<and> empty_s (0 :: 8 word)"
  using push_grow [of full_u8 doubling 256 255]
  by (simp add: full_u8_facts over_u8_def vec_size_def nodes_def emplace_back_def full_u8_def
      nth_append empty_s_def end_h_def)

text \<open>
  C8 (iterator equality). Two iterators are equal exactly when their current handles
  are equal (the pool pointer is not compared), \<^verbatim>\<open>!=\<close> is the negation, and an
  iterator equals the end iterator exactly when its current handle is the sentinel.
\<close>

theorem iterator_equality:
  "it_eq x y = (current x = current y) \<and> it_neq x y = (current x \<noteq> current y)
   \<and> it_eq x (end_it t h) = empty_s (current x)
   \<and> it_neq x (end_it t h) = (\<not> empty_s (current x))
   \<and> it_eq (begin_it t h) (end_it t h) = empty_s h"
  by (simp add: it_eq_def it_neq_def end_it_def begin_it_def empty_s_def)

text \<open>
  C9 (push never returns the sentinel). Where the push is defined, \<^verbatim>\<open>push(v, h)\<close>
  returns, for every \<open>v\<close> and \<open>h\<close>, a handle for which \<^verbatim>\<open>empty\<close> is false.
\<close>

theorem push_not_sentinel:
  assumes "push_defined p"
  shows "\<exists>t q. push g v h p = Inr (t, q) \<and> \<not> empty_s t"
  using push_result [OF assms, of g v h] by (auto simp: empty_s_def end_h_def)

text \<open>
  The first push in a default-constructed pool with the default index type.
\<close>

theorem push_not_sentinel_witness:
  "push_defined (stack_pool_new :: (int, 64) stack_pool)
   \<and> (\<exists>t q. push doubling 10 new_stack (stack_pool_new :: (int, 64) stack_pool) = Inr (t, q) \<and> \<not> empty_s t)"
proof -
  have h: "push_defined (stack_pool_new :: (int, 64) stack_pool)"
    by (simp add: push_defined_def stack_pool_new_def vector_new_def nodes_def empty_s_def)
  show ?thesis using h push_not_sentinel [OF h, of doubling 10 new_stack] by simp
qed

text \<open>
  In the full eight-bit pool the push onto a new stack appends the 256th node and
  returns \<^verbatim>\<open>static_cast<uint8_t>(256)\<close>, for which \<^verbatim>\<open>empty\<close> is true.
\<close>

theorem push_not_sentinel_overflow:
  "push doubling 256 new_stack full_u8
     = Inr (0, full_u8\<lparr>pool := emplace_back doubling \<lparr>value_n = 256, next_n = new_stack\<rparr> (pool full_u8)\<rparr>)
   \<and> empty_s (0 :: 8 word)"
  using push_grow [of full_u8 doubling 256 new_stack]
  by (simp add: full_u8_facts empty_s_def end_h_def)

text \<open>
  C10 (the free list is a stack). \<^verbatim>\<open>pop(x)\<close> of a handle \<open>x\<close> of a node makes
  \<open>x\<close> the head of the free list, linked to the old head; the next push returns
  \<open>x\<close>, writes its value and head into the node of \<open>x\<close>, takes \<open>x\<close> off the free
  list, whose head is the old one again, and does not grow the storage. After
  \<^verbatim>\<open>free_stack\<close> on a well-formed stack with nodes \<open>as\<close>, at least one, the head of
  the free list is the last node of the stack; the next push returns that handle, writes
  into that node, and leaves as free list the other nodes of the stack, in reverse order,
  in front of the old head.
\<close>

theorem free_list_lifo:
  fixes p :: "('a, 'n::len) stack_pool"
  assumes "x \<noteq> end_h" and "slot x < length (nodes p)" and "chain p h as" and "as \<noteq> []"
  shows "(\<exists>t q. pop x p = Inr (t, q) \<and> free_nodes q = x \<and> next_at q x = Inr (free_nodes p)
            \<and> (\<exists>q'. push g v k q = Inr (x, q')
                  \<and> node q' x = Inr \<lparr>value_n = v, next_n = k\<rparr>
                  \<and> free_nodes q' = free_nodes p
                  \<and> vec_size (pool q') = vec_size (pool p)))
       \<and> (\<exists>q. free_stack h p = Some (Inr (end_h, q)) \<and> free_nodes q = last as
            \<and> (\<exists>q'. push g v k q = Inr (last as, q')
                  \<and> node q' (last as) = Inr \<lparr>value_n = v, next_n = k\<rparr>
                  \<and> seg q' (free_nodes q') (rev (butlast as)) (free_nodes p)
                  \<and> vec_size (pool q') = vec_size (pool p)))"
proof
  define q where "q = p\<lparr>pool := (pool p)\<lparr>items := (nodes p)[slot x := (nodes p ! slot x)\<lparr>next_n := free_nodes p\<rparr>]\<rparr>,
           free_nodes := x\<rparr>"
  define q' where "q' = q\<lparr>pool := (pool q)\<lparr>items := (nodes q)[slot x := \<lparr>value_n = v, next_n = k\<rparr>]\<rparr>,
           free_nodes := next_n (nodes q ! slot x)\<rparr>"
  from assms(1) have x: "x \<noteq> 0" by (simp add: end_h_def)
  have pop: "pop x p = Inr (next_n (nodes p ! slot x), q)"
    using pop_node [OF x assms(2)] by (simp add: q_def)
  have nq: "nodes q = (nodes p)[slot x := (nodes p ! slot x)\<lparr>next_n := free_nodes p\<rparr>]"
    and fq: "free_nodes q = x"
    by (simp_all add: q_def nodes_def)
  have link: "next_at q x = Inr (free_nodes p)"
    using assms(2) by (simp add: next_at_def node_def nq)
  have push: "push g v k q = Inr (x, q')"
    using push_reuse [of q g v k] x assms(2) by (simp add: fq nq q'_def)
  have nq': "nodes q' = (nodes q)[slot x := \<lparr>value_n = v, next_n = k\<rparr>]"
    by (simp add: q'_def nodes_def)
  have "node q' x = Inr \<lparr>value_n = v, next_n = k\<rparr>"
    using assms(2) by (simp add: node_def nq' nq)
  moreover have "free_nodes q' = free_nodes p"
    using assms(2) by (simp add: q'_def nq)
  moreover have "vec_size (pool q') = vec_size (pool p)"
    using nq' nq by (simp add: vec_size_def nodes_def)
  ultimately show "\<exists>t q. pop x p = Inr (t, q) \<and> free_nodes q = x \<and> next_at q x = Inr (free_nodes p)
            \<and> (\<exists>q'. push g v k q = Inr (x, q')
                  \<and> node q' x = Inr \<lparr>value_n = v, next_n = k\<rparr>
                  \<and> free_nodes q' = free_nodes p
                  \<and> vec_size (pool q') = vec_size (pool p))"
    using pop fq link push by blast
next
  have "seg p (free_nodes p) [] (free_nodes p)" by simp
  with assms(3) obtain q where
    q: "free_stack h p = Some (Inr (0, q))"
       "seg q (free_nodes q) (rev as @ []) (free_nodes p)"
       "length (nodes q) = length (nodes p)"
    using free_stack_seg [of p h as "[]" "free_nodes p"] by (auto simp: chain_def end_h_def)
  let ?l = "last as"
  define q' where "q' = q\<lparr>pool := (pool q)\<lparr>items := (nodes q)[slot ?l := \<lparr>value_n = v, next_n = k\<rparr>]\<rparr>,
           free_nodes := next_n (nodes q ! slot ?l)\<rparr>"
  from assms(4) have split: "as = butlast as @ [?l]" by simp
  then have rev: "rev as = ?l # rev (butlast as)"
    by (metis rev.simps(2) rev_append rev_rev_ident)
  from assms(3) have "distinct as" using seg_distinct [of p h as] by (simp add: chain_def end_h_def)
  with split have fresh: "?l \<notin> set (rev (butlast as))"
    by (metis distinct.simps(2) set_rev distinct_rev rev)
  from q(2) rev have l: "free_nodes q = ?l" "?l \<noteq> 0" "slot ?l < length (nodes q)"
    and rest: "seg q (next_n (nodes q ! slot ?l)) (rev (butlast as)) (free_nodes p)"
    by (simp_all add: empty_s_def end_h_def)
  have push: "push g v k q = Inr (?l, q')"
    using push_reuse [of q g v k] l by (simp add: q'_def)
  have nq': "nodes q' = (nodes q)[slot ?l := \<lparr>value_n = v, next_n = k\<rparr>]"
    by (simp add: q'_def nodes_def)
  have "node q' ?l = Inr \<lparr>value_n = v, next_n = k\<rparr>"
    using l(3) by (simp add: node_def nq')
  moreover have "seg q' (free_nodes q') (rev (butlast as)) (free_nodes p)"
    using rest seg_update [OF fresh nq'] by (simp add: q'_def)
  moreover have "vec_size (pool q') = vec_size (pool p)"
    using nq' q(3) by (simp add: vec_size_def nodes_def)
  ultimately show "\<exists>q. free_stack h p = Some (Inr (end_h, q)) \<and> free_nodes q = last as
            \<and> (\<exists>q'. push g v k q = Inr (last as, q')
                  \<and> node q' (last as) = Inr \<lparr>value_n = v, next_n = k\<rparr>
                  \<and> seg q' (free_nodes q') (rev (butlast as)) (free_nodes p)
                  \<and> vec_size (pool q') = vec_size (pool p))"
    using q(1) l(1) push by (auto simp: end_h_def)
qed

text \<open>
  In \<open>demo\<close>: after \<^verbatim>\<open>pop(2)\<close> the push returns \<open>2\<close>; after
  \<^verbatim>\<open>free_stack(2)\<close> on the stack \<open>2, 1\<close> it returns \<open>1\<close>.
\<close>

theorem free_list_lifo_witness:
  "(2 :: 64 word) \<noteq> end_h \<and> slot (2 :: 64 word) < length (nodes demo) \<and> chain demo 2 [2, 1]
   \<and> [2, 1 :: 64 word] \<noteq> []
   \<and> (\<exists>t q. pop 2 demo = Inr (t, q) \<and> free_nodes q = 2 \<and> next_at q 2 = Inr (free_nodes demo)
            \<and> (\<exists>q'. push doubling 50 0 q = Inr (2, q')
                  \<and> node q' 2 = Inr \<lparr>value_n = 50, next_n = 0\<rparr>
                  \<and> free_nodes q' = free_nodes demo
                  \<and> vec_size (pool q') = vec_size (pool demo)))
   \<and> (\<exists>q. free_stack 2 demo = Some (Inr (end_h, q)) \<and> free_nodes q = last [2, 1]
            \<and> (\<exists>q'. push doubling 50 0 q = Inr (last [2, 1], q')
                  \<and> node q' (last [2, 1]) = Inr \<lparr>value_n = 50, next_n = 0\<rparr>
                  \<and> seg q' (free_nodes q') (rev (butlast [2, 1])) (free_nodes demo)
                  \<and> vec_size (pool q') = vec_size (pool demo)))"
proof -
  have h1: "(2 :: 64 word) \<noteq> end_h" by (simp add: end_h_def)
  have h2: "slot (2 :: 64 word) < length (nodes demo)" by (simp add: slot_def demo_def nodes_def)
  have h3: "chain demo 2 [2, 1]"
    by (simp add: chain_def demo_def nodes_def slot_def empty_s_def end_h_def)
  have h4: "[2, 1 :: 64 word] \<noteq> []" by simp
  show ?thesis using h1 h2 h3 free_list_lifo [OF h1 h2 h3 h4, of doubling 50 0] by simp
qed

end
